theory Spec2Isabelle
  imports Complex_Main "HOL-Library.FSet"
begin

section \<open>Conventions\<close>

text \<open>
  Python floats are idealised as \<^typ>\<open>real\<close> (rounding is left out; the overflow of a float
  power and of the conversion of an int to a float, which raise, are kept), Python ints as
  \<^typ>\<open>int\<close>. Every reading of
  \<^verbatim>\<open>time.time()\<close> is a reading of an explicit clock; \<^verbatim>\<open>time.sleep(d)\<close> advances that
  clock by exactly \<open>d\<close> and raises \<open>ValueError\<close> for a negative \<open>d\<close>. Every draw of
  \<^verbatim>\<open>random.random()\<close> is an explicit argument. Exceptions are values of \<open>exn\<close>; a function
  that can raise returns \<open>exn + 'a\<close> with \<open>Inl\<close> for the raised exception.
\<close>

datatype exn =
    ValueError
  | ZeroDivisionError
  | TypeError
  | HTTPError int
  | RequestException
  | ImportError
  | OverflowError

text \<open>\<^verbatim>\<open>int(x)\<close> on a float truncates towards zero.\<close>

definition py_int :: "real \<Rightarrow> int" where
  "py_int x = (if 0 \<le> x then \<lfloor>x\<rfloor> else \<lceil>x\<rceil>)"

text \<open>
  The largest finite float, \<^verbatim>\<open>sys.float_info.max\<close>. The power \<^verbatim>\<open>x ** n\<close> of a float and a
  non-negative int raises \<open>OverflowError\<close> when the result is beyond it.
\<close>

definition float_max :: real where
  "float_max = 2 ^ 1024 - 2 ^ 971"

definition py_pow :: "real \<Rightarrow> nat \<Rightarrow> exn + real" where
  "py_pow x n = (if float_max < \<bar>x ^ n\<bar> then Inl OverflowError else Inr (x ^ n))"

text \<open>\<^verbatim>\<open>random.uniform(a, b)\<close> is \<^verbatim>\<open>a + (b - a) * random()\<close>; \<open>u\<close> is the draw of \<^verbatim>\<open>random()\<close>.\<close>

definition uniform :: "real \<Rightarrow> real \<Rightarrow> real \<Rightarrow> real" where
  "uniform a b u = a + (b - a) * u"

section \<open>middleware/rate\_limiter.py\<close>

subsection \<open>TokenBucket\<close>

record TokenBucket =
  rate :: real
  capacity :: int
  tokens :: real
  last_update :: real

text \<open>\<^verbatim>\<open>TokenBucket.__init__(rate, capacity)\<close>, constructed when the clock reads \<open>now\<close>.\<close>

definition TokenBucket_init :: "real \<Rightarrow> int \<Rightarrow> real \<Rightarrow> TokenBucket" where
  "TokenBucket_init r c now =
     \<lparr>rate = r, capacity = c, tokens = of_int c, last_update = now\<rparr>"

text \<open>\<^verbatim>\<open>TokenBucket._add_tokens\<close> when the clock reads \<open>now\<close>.\<close>

definition add_tokens :: "real \<Rightarrow> TokenBucket \<Rightarrow> TokenBucket" where
  "add_tokens now b =
     b\<lparr>tokens := min (of_int (capacity b)) (tokens b + (now - last_update b) * rate b),
       last_update := now\<rparr>"

text \<open>
  \<^verbatim>\<open>TokenBucket.acquire(tokens, blocking)\<close>. The state is the clock and the bucket; the
  result is the returned flag (or the exception), the clock after the call and the bucket
  after the call. The division \<^verbatim>\<open>deficit / self.rate\<close> raises for a zero rate, and
  \<^verbatim>\<open>time.sleep\<close> raises for a negative wait.
\<close>

definition acquire :: "int \<Rightarrow> bool \<Rightarrow> real \<times> TokenBucket \<Rightarrow> (exn + bool) \<times> real \<times> TokenBucket" where
  "acquire n blocking s =
     (let clk = fst s;
          b1 = add_tokens clk (snd s)
      in if of_int n \<le> tokens b1 then (Inr True, clk, b1\<lparr>tokens := tokens b1 - of_int n\<rparr>)
         else if \<not> blocking then (Inr False, clk, b1)
         else
           let deficit = of_int n - tokens b1
           in if rate b1 = 0 then (Inl ZeroDivisionError, clk, b1)
              else
                let wait_time = deficit / rate b1
                in if wait_time < 0 then (Inl ValueError, clk, b1)
                   else
                     let clk2 = clk + wait_time;
                         b2 = add_tokens clk2 b1
                     in (Inr True, clk2, b2\<lparr>tokens := tokens b2 - of_int n\<rparr>))"

text \<open>A history of a bucket: calls of \<open>acquire\<close> and advances of the clock.\<close>

datatype tb_op = Acquire int bool | Advance real

fun run_op :: "tb_op \<Rightarrow> real \<times> TokenBucket \<Rightarrow> real \<times> TokenBucket" where
  "run_op (Acquire n blocking) s = snd (acquire n blocking s)"
| "run_op (Advance dt) s = (fst s + dt, snd s)"

fun run_ops :: "tb_op list \<Rightarrow> real \<times> TokenBucket \<Rightarrow> real \<times> TokenBucket" where
  "run_ops [] s = s"
| "run_ops (x # xs) s = run_ops xs (run_op x s)"

text \<open>The invariant of the data model: \<open>0 \<le> tokens \<le> capacity\<close>.\<close>

definition tb_inv :: "TokenBucket \<Rightarrow> bool" where
  "tb_inv b \<longleftrightarrow> 0 \<le> tokens b \<and> tokens b \<le> of_int (capacity b)"

text \<open>A well-formed state: positive rate, and the clock not behind the last refill.\<close>

definition tb_wf :: "real \<times> TokenBucket \<Rightarrow> bool" where
  "tb_wf s \<longleftrightarrow> 0 < rate (snd s) \<and> last_update (snd s) \<le> fst s"

text \<open>An operation within the bucket's range: a cost between 0 and the capacity, time moving forward.\<close>

fun op_ok :: "TokenBucket \<Rightarrow> tb_op \<Rightarrow> bool" where
  "op_ok b (Acquire n blocking) \<longleftrightarrow> 0 \<le> n \<and> n \<le> capacity b"
| "op_ok b (Advance dt) \<longleftrightarrow> 0 \<le> dt"

subsection \<open>AdaptiveRateLimiter\<close>

record AdaptiveRateLimiter =
  current_rps :: real
  min_rps :: real
  max_rps :: real
  bucket :: TokenBucket

definition AdaptiveRateLimiter_init :: "real \<Rightarrow> real \<Rightarrow> real \<Rightarrow> real \<Rightarrow> AdaptiveRateLimiter" where
  "AdaptiveRateLimiter_init initial_rps mn mx now =
     \<lparr>current_rps = initial_rps, min_rps = mn, max_rps = mx,
      bucket = TokenBucket_init initial_rps (py_int (initial_rps * 2)) now\<rparr>"

text \<open>\<^verbatim>\<open>AdaptiveRateLimiter.report_response(status_code)\<close> when the clock reads \<open>now\<close>.\<close>

definition report_response :: "real \<Rightarrow> int \<Rightarrow> AdaptiveRateLimiter \<Rightarrow> AdaptiveRateLimiter" where
  "report_response now status_code a =
     (if status_code = 429 then
        let c = max (min_rps a) (current_rps a * 0.5)
        in a\<lparr>current_rps := c, bucket := TokenBucket_init c (py_int (c * 2)) now\<rparr>
      else if status_code < 400 then
        let c = min (max_rps a) (current_rps a * 1.1)
        in a\<lparr>current_rps := c, bucket := TokenBucket_init c (py_int (c * 2)) now\<rparr>
      else a)"

text \<open>\<^verbatim>\<open>AdaptiveRateLimiter.acquire()\<close>: \<^verbatim>\<open>self.bucket.acquire()\<close> with the defaults \<open>1\<close>, \<open>True\<close>.\<close>

definition arl_acquire :: "real \<times> AdaptiveRateLimiter \<Rightarrow> (exn + bool) \<times> real \<times> AdaptiveRateLimiter" where
  "arl_acquire s =
     (case acquire 1 True (fst s, bucket (snd s)) of
        (r, clk, b) \<Rightarrow> (r, clk, (snd s)\<lparr>bucket := b\<rparr>))"

text \<open>A run of consecutive reports of one status code (the clock does not matter to the rate).\<close>

fun report_many :: "nat \<Rightarrow> int \<Rightarrow> AdaptiveRateLimiter \<Rightarrow> AdaptiveRateLimiter" where
  "report_many 0 status_code a = a"
| "report_many (Suc k) status_code a = report_many k status_code (report_response 0 status_code a)"

section \<open>middleware/retry.py\<close>

text \<open>
  \<open>retry_exceptions\<close> is the tuple of exception classes, as the predicate "an instance
  of one of them"; the default \<^verbatim>\<open>(Exception,)\<close> accepts every exception.
\<close>

record RetryManager =
  max_retries :: int
  base_delay :: real
  max_delay :: real
  exponential_base :: real
  retry_exceptions :: "exn \<Rightarrow> bool"

text \<open>\<^verbatim>\<open>RetryManager(max_retries=m)\<close> with the defaults of the other arguments.\<close>

definition RetryManager_init :: "int \<Rightarrow> RetryManager" where
  "RetryManager_init m =
     \<lparr>max_retries = m, base_delay = 1, max_delay = 60, exponential_base = 2,
      retry_exceptions = (\<lambda>e. True)\<rparr>"

text \<open>
  The backoff before jitter: \<^verbatim>\<open>min(base_delay * exponential_base ** attempt, max_delay)\<close>.
  The power is evaluated first and can raise, before \<open>min\<close> is applied.
\<close>

definition backoff :: "RetryManager \<Rightarrow> nat \<Rightarrow> exn + real" where
  "backoff rm attempt =
     (case py_pow (exponential_base rm) attempt of
        Inl e \<Rightarrow> Inl e
      | Inr p \<Rightarrow> Inr (min (base_delay rm * p) (max_delay rm)))"

text \<open>\<^verbatim>\<open>RetryManager.calculate_delay(attempt)\<close>; \<open>u\<close> is the draw of \<^verbatim>\<open>random()\<close>.\<close>

definition calculate_delay :: "RetryManager \<Rightarrow> nat \<Rightarrow> real \<Rightarrow> exn + real" where
  "calculate_delay rm attempt u =
     (case backoff rm attempt of
        Inl e \<Rightarrow> Inl e
      | Inr delay \<Rightarrow>
          (let jitter = delay * 0.25
           in Inr (delay + uniform (- jitter) jitter u)))"

text \<open>
  The loop of \<^verbatim>\<open>RetryManager.execute\<close> over the remaining values of \<open>attempt\<close>.
  \<open>func k\<close> is the outcome of the \<open>k\<close>-th invocation of the operation (counted from 0),
  \<open>us attempt\<close> the random draw of the jitter after that attempt. The result is what
  \<open>execute\<close> returns or raises, the number of invocations made, and the sleeps made.
  An exception of \<open>calculate_delay\<close> or of \<^verbatim>\<open>time.sleep\<close> is raised inside the handler and
  leaves \<open>execute\<close>. \<^verbatim>\<open>raise last_exception\<close> with \<open>None\<close> is a \<open>TypeError\<close>.
\<close>

fun execute_loop ::
  "RetryManager \<Rightarrow> (nat \<Rightarrow> exn + 'a) \<Rightarrow> (nat \<Rightarrow> real) \<Rightarrow> nat list \<Rightarrow> exn option \<Rightarrow> nat \<Rightarrow> real list
   \<Rightarrow> (exn + 'a) \<times> nat \<times> real list" where
  "execute_loop rm func us [] last_exception calls sleeps =
     (case last_exception of
        None \<Rightarrow> (Inl TypeError, calls, sleeps)
      | Some e \<Rightarrow> (Inl e, calls, sleeps))"
| "execute_loop rm func us (attempt # rest) last_exception calls sleeps =
     (case func calls of
        Inr v \<Rightarrow> (Inr v, Suc calls, sleeps)
      | Inl e \<Rightarrow>
          if retry_exceptions rm e then
            if int attempt < max_retries rm then
              (case calculate_delay rm attempt (us attempt) of
                 Inl e' \<Rightarrow> (Inl e', Suc calls, sleeps)
               | Inr delay \<Rightarrow>
                   if delay < 0 then (Inl ValueError, Suc calls, sleeps)
                   else execute_loop rm func us rest (Some e) (Suc calls) (sleeps @ [delay]))
            else execute_loop rm func us rest (Some e) (Suc calls) sleeps
          else (Inl e, Suc calls, sleeps))"

text \<open>\<^verbatim>\<open>for attempt in range(n)\<close>: empty for \<open>n \<le> 0\<close>.\<close>

definition py_range :: "int \<Rightarrow> nat list" where
  "py_range n = [0..<nat n]"

definition execute ::
  "RetryManager \<Rightarrow> (nat \<Rightarrow> exn + 'a) \<Rightarrow> (nat \<Rightarrow> real) \<Rightarrow> (exn + 'a) \<times> nat \<times> real list" where
  "execute rm func us = execute_loop rm func us (py_range (max_retries rm + 1)) None 0 []"

section \<open>middleware/cache.py\<close>

subsection \<open>The two cache libraries\<close>

text \<open>
  \<^verbatim>\<open>cachetools.TTLCache\<close> and \<^verbatim>\<open>diskcache.Cache\<close> are libraries outside the repository; they
  are modelled from their documented behaviour, as far as \<open>CacheManager\<close> uses them. A
  \<open>TTLCache\<close> holds its items oldest first, each with its expiry time; every item has size 1.
  An item is visible while the clock is before its expiry; storing purges the expired items,
  evicts from the front while the cache is full, and gives the stored item the expiry
  \<open>now + ttl\<close> with the \<open>ttl\<close> of the constructor.
\<close>

record 'v TTLCache =
  maxsize :: int
  ttl :: real
  items :: "(string \<times> 'v \<times> real) list"

definition TTLCache_init :: "int \<Rightarrow> real \<Rightarrow> 'v TTLCache" where
  "TTLCache_init m t = \<lparr>maxsize = m, ttl = t, items = []\<rparr>"

definition ttl_lookup :: "'v TTLCache \<Rightarrow> string \<Rightarrow> real \<Rightarrow> 'v option" where
  "ttl_lookup c k now =
     (case map_of (items c) k of
        None \<Rightarrow> None
      | Some (v, expires) \<Rightarrow> if now < expires then Some v else None)"

definition ttl_expire :: "real \<Rightarrow> (string \<times> 'v \<times> real) list \<Rightarrow> (string \<times> 'v \<times> real) list" where
  "ttl_expire now xs = filter (\<lambda>(k, v, expires). now < expires) xs"

text \<open>Eviction while \<open>currsize + 1 > maxsize\<close>: drop from the front until there is room.\<close>

definition ttl_evict :: "int \<Rightarrow> (string \<times> 'v \<times> real) list \<Rightarrow> (string \<times> 'v \<times> real) list" where
  "ttl_evict m xs = drop (nat (int (length xs) + 1 - m)) xs"

definition ttl_setitem :: "'v TTLCache \<Rightarrow> string \<Rightarrow> 'v \<Rightarrow> real \<Rightarrow> exn + 'v TTLCache" where
  "ttl_setitem c k v now =
     (let live = ttl_expire now (items c)
      in if 1 > maxsize c then Inl ValueError
         else
           let kept = (if k \<in> fst ` set live then live else ttl_evict (maxsize c) live)
           in Inr (c\<lparr>items := filter (\<lambda>(k', v', expires). k' \<noteq> k) kept @ [(k, v, now + ttl c)]\<rparr>))"

definition ttl_delitem :: "'v TTLCache \<Rightarrow> string \<Rightarrow> 'v TTLCache" where
  "ttl_delitem c k = c\<lparr>items := filter (\<lambda>(k', v', expires). k' \<noteq> k) (items c)\<rparr>"

text \<open>
  A \<open>diskcache.Cache\<close> holds for each key the value and an optional expiry time;
  \<^verbatim>\<open>set(key, value, expire=ttl)\<close> stores the expiry \<open>now + ttl\<close>, or none for \<open>None\<close>.
\<close>

type_synonym 'v DiskCache = "(string \<times> 'v \<times> real option) list"

definition disk_lookup :: "'v DiskCache \<Rightarrow> string \<Rightarrow> real \<Rightarrow> 'v option" where
  "disk_lookup d k now =
     (case map_of d k of
        None \<Rightarrow> None
      | Some (v, None) \<Rightarrow> Some v
      | Some (v, Some expires) \<Rightarrow> if now < expires then Some v else None)"

definition disk_set :: "'v DiskCache \<Rightarrow> string \<Rightarrow> 'v \<Rightarrow> int option \<Rightarrow> real \<Rightarrow> 'v DiskCache" where
  "disk_set d k v expire now =
     (k, v, map_option (\<lambda>t. now + of_int t) expire) # filter (\<lambda>(k', v', e). k' \<noteq> k) d"

subsection \<open>CacheManager\<close>

text \<open>
  \<open>self.backend\<close> and \<open>self.cache\<close> together: the memory backend holds a \<open>TTLCache\<close>, the
  disk backend a \<open>diskcache.Cache\<close>. \<open>md5\<close> stands for
  \<^verbatim>\<open>hashlib.md5(key.encode()).hexdigest()\<close>.
\<close>

datatype 'v CacheManager = Memory "'v TTLCache" | Disk "'v DiskCache"

text \<open>
  \<^verbatim>\<open>CacheManager.__init__(backend, cache_dir, maxsize, ttl)\<close>; \<open>diskcache_available\<close> is the
  module flag. The disk backend starts from the content \<open>on_disk\<close> of the cache directory.
\<close>

definition CacheManager_init ::
  "bool \<Rightarrow> 'v DiskCache \<Rightarrow> string \<Rightarrow> int \<Rightarrow> int \<Rightarrow> exn + 'v CacheManager" where
  "CacheManager_init diskcache_available on_disk backend mx t =
     (if backend = ''memory'' then Inr (Memory (TTLCache_init mx (of_int t)))
      else if backend = ''disk'' then
        (if \<not> diskcache_available then Inl ImportError else Inr (Disk on_disk))
      else Inl ValueError)"

definition make_key :: "(string \<Rightarrow> string) \<Rightarrow> string \<Rightarrow> string" where
  "make_key md5 key = md5 key"

definition cm_get :: "(string \<Rightarrow> string) \<Rightarrow> 'v CacheManager \<Rightarrow> string \<Rightarrow> real \<Rightarrow> 'v option" where
  "cm_get md5 cm key now =
     (let cache_key = make_key md5 key
      in case cm of
           Memory c \<Rightarrow> ttl_lookup c cache_key now
         | Disk d \<Rightarrow> disk_lookup d cache_key now)"


text \<open>\<^verbatim>\<open>CacheManager.set(key, value, ttl)\<close> when the clock reads \<open>now\<close>.\<close>

definition cm_set ::
  "(string \<Rightarrow> string) \<Rightarrow> 'v CacheManager \<Rightarrow> string \<Rightarrow> 'v \<Rightarrow> int option \<Rightarrow> real \<Rightarrow> exn + 'v CacheManager" where
  "cm_set md5 cm key val t now =
     (let cache_key = make_key md5 key
      in case cm of
           Memory c \<Rightarrow>
             (case ttl_setitem c cache_key val now of
                Inl e \<Rightarrow> Inl e
              | Inr c' \<Rightarrow> Inr (Memory c'))
         | Disk d \<Rightarrow> Inr (Disk (disk_set d cache_key val t now)))"

definition cm_delete :: "(string \<Rightarrow> string) \<Rightarrow> 'v CacheManager \<Rightarrow> string \<Rightarrow> 'v CacheManager" where
  "cm_delete md5 cm key =
     (let cache_key = make_key md5 key
      in case cm of
           Memory c \<Rightarrow> Memory (ttl_delitem c cache_key)
         | Disk d \<Rightarrow> Disk (filter (\<lambda>(k', v', e). k' \<noteq> cache_key) d))"

text \<open>The time at which the entry stored under a key stops being served, if it is stored.\<close>

definition cm_expiry :: "(string \<Rightarrow> string) \<Rightarrow> 'v CacheManager \<Rightarrow> string \<Rightarrow> real option option" where
  "cm_expiry md5 cm key =
     (case cm of
        Memory c \<Rightarrow> map_option (\<lambda>(v, expires). Some expires) (map_of (items c) (make_key md5 key))
      | Disk d \<Rightarrow> map_option snd (map_of d (make_key md5 key)))"

section \<open>utils/validators.py\<close>

text \<open>
  What the code takes from outside the repository: \<^verbatim>\<open>hashlib.md5(...).hexdigest()\<close>,
  \<^verbatim>\<open>validators.url\<close>, and the scheme and network location of \<^verbatim>\<open>urlparse\<close>.
\<close>

record extern =
  md5 :: "string \<Rightarrow> string"
  validators_url :: "string \<Rightarrow> bool"
  urlparse_scheme :: "string \<Rightarrow> string"
  urlparse_netloc :: "string \<Rightarrow> string"

text \<open>\<^verbatim>\<open>URLValidator.validate(url)\<close> with the validator's \<open>allowed_schemes\<close>.\<close>

definition validate :: "extern \<Rightarrow> string list \<Rightarrow> string \<Rightarrow> exn + bool" where
  "validate ext allowed_schemes url =
     (if url = [] then Inl ValueError
      else if \<not> validators_url ext url then Inl ValueError
      else if urlparse_scheme ext url \<notin> set allowed_schemes then Inl ValueError
      else if urlparse_netloc ext url = [] then Inl ValueError
      else Inr True)"

section \<open>core/scraper.py\<close>

record response =
  status_code :: int
  content :: string


record ScrapingConfig =
  delay_range :: "real \<times> real"
  cfg_max_retries :: int
  use_cache :: bool
  cache_ttl :: int

record SmartScraper =
  config :: ScrapingConfig
  cache :: "response CacheManager option"
  retry_manager :: RetryManager
  allowed_schemes :: "string list"





text \<open>
  \<^verbatim>\<open>SmartScraper.fetch_many(urls)\<close>, over any state-passing \<open>fetch\<close>: the list it returns
  has \<open>None\<close> where the fetch raised.
\<close>

fun fetch_many_loop ::
  "(string \<Rightarrow> 's \<Rightarrow> (exn + 'r) \<times> 's) \<Rightarrow> string list \<Rightarrow> 'r option list \<Rightarrow> 's \<Rightarrow> 'r option list \<times> 's" where
  "fetch_many_loop f [] results s = (results, s)"
| "fetch_many_loop f (url # urls) results s =
     (case f url s of
        (Inr resp, s') \<Rightarrow> fetch_many_loop f urls (results @ [Some resp]) s'
      | (Inl e, s') \<Rightarrow> fetch_many_loop f urls (results @ [None]) s')"

definition fetch_many ::
  "(string \<Rightarrow> 's \<Rightarrow> (exn + 'r) \<times> 's) \<Rightarrow> string list \<Rightarrow> 's \<Rightarrow> 'r option list \<times> 's" where
  "fetch_many f urls s = fetch_many_loop f urls [] s"

subsection \<open>crawl\<close>

text \<open>
  What \<open>crawl\<close> calls: \<open>scrape\<close> is \<^verbatim>\<open>self.scrape(url)\<close>, acting on the world outside (network,
  cache, clock) and raising or returning a parsed page; \<open>find_all_a_href\<close> gives the
  \<open>href\<close> of every anchor of a page in document order; \<open>urljoin\<close> and \<open>netloc\<close>
  (\<^verbatim>\<open>urlparse(u).netloc\<close>) can raise \<open>ValueError\<close>. The arguments of \<open>crawl\<close> other than
  the start URL, and the \<open>base_domain\<close> it computes, are part of the context.
\<close>

record ('w, 'soup) crawl_ctx =
  scrape :: "string \<Rightarrow> 'w \<Rightarrow> (exn + 'soup) \<times> 'w"
  find_all_a_href :: "'soup \<Rightarrow> string list"
  urljoin :: "string \<Rightarrow> string \<Rightarrow> exn + string"
  netloc :: "string \<Rightarrow> exn + string"
  max_pages :: int
  same_domain :: bool
  link_filter :: "(string \<Rightarrow> exn + bool) option"
  base_domain :: string

text \<open>The local variables of \<open>crawl\<close>, the world, and the errors logged so far.\<close>

record ('w, 'soup) crawl_state =
  to_visit :: "string list"
  visited :: "string fset"
  results :: "'soup list"
  world :: 'w
  crawl_errors :: "(string \<times> exn) list"

text \<open>
  The loop over the anchors of one page, from the queue \<open>q\<close>: it returns the exception that
  ended it, if any, and the queue as the loop left it.
\<close>

fun enqueue_links ::
  "('w, 'soup) crawl_ctx \<Rightarrow> string \<Rightarrow> string fset \<Rightarrow> string list \<Rightarrow> string list \<Rightarrow> exn option \<times> string list" where
  "enqueue_links ctx url vis [] q = (None, q)"
| "enqueue_links ctx url vis (href # hrefs) q =
     (case urljoin ctx url href of
        Inl e \<Rightarrow> (Some e, q)
      | Inr full_url \<Rightarrow>
          (case (if same_domain ctx
                 then (case netloc ctx full_url of Inl e \<Rightarrow> Inl e | Inr d \<Rightarrow> Inr (d \<noteq> base_domain ctx))
                 else Inr False) of
             Inl e \<Rightarrow> (Some e, q)
           | Inr True \<Rightarrow> enqueue_links ctx url vis hrefs q
           | Inr False \<Rightarrow>
               (case (case link_filter ctx of
                        None \<Rightarrow> Inr False
                      | Some p \<Rightarrow> (case p full_url of Inl e \<Rightarrow> Inl e | Inr b \<Rightarrow> Inr (\<not> b))) of
                  Inl e \<Rightarrow> (Some e, q)
                | Inr True \<Rightarrow> enqueue_links ctx url vis hrefs q
                | Inr False \<Rightarrow>
                    enqueue_links ctx url vis hrefs
                      (if full_url |\<notin>| vis then q @ [full_url] else q))))"

text \<open>One iteration of the \<open>while\<close> loop (the queue is not empty when the body runs).\<close>

definition crawl_step :: "('w, 'soup) crawl_ctx \<Rightarrow> ('w, 'soup) crawl_state \<Rightarrow> ('w, 'soup) crawl_state" where
  "crawl_step ctx st =
     (case to_visit st of
        [] \<Rightarrow> st
      | url # rest \<Rightarrow>
          if url |\<in>| visited st then st\<lparr>to_visit := rest\<rparr>
          else
            (case scrape ctx url (world st) of
               (Inl e, w) \<Rightarrow>
                 st\<lparr>to_visit := rest, world := w, crawl_errors := crawl_errors st @ [(url, e)]\<rparr>
             | (Inr soup, w) \<Rightarrow>
                 let vis = finsert url (visited st);
                     res = results st @ [soup];
                     out = enqueue_links ctx url vis (find_all_a_href ctx soup) rest
                 in st\<lparr>to_visit := snd out, visited := vis, results := res, world := w,
                       crawl_errors := (case fst out of
                                          None \<Rightarrow> crawl_errors st
                                        | Some e \<Rightarrow> crawl_errors st @ [(url, e)])\<rparr>))"

definition crawl_guard :: "('w, 'soup) crawl_ctx \<Rightarrow> ('w, 'soup) crawl_state \<Rightarrow> bool" where
  "crawl_guard ctx st \<longleftrightarrow> to_visit st \<noteq> [] \<and> int (fcard (visited st)) < max_pages ctx"

function crawl_loop :: "('w, 'soup) crawl_ctx \<Rightarrow> ('w, 'soup) crawl_state \<Rightarrow> ('w, 'soup) crawl_state" where
  "crawl_loop ctx st = (if crawl_guard ctx st then crawl_loop ctx (crawl_step ctx st) else st)"
  by pat_completeness auto
termination
proof (relation "measures [\<lambda>(ctx, st). nat (max_pages ctx - int (fcard (visited st))),
                           \<lambda>(ctx, st). length (to_visit st)]")
  show "wf (measures [\<lambda>(ctx :: ('w, 'soup) crawl_ctx, st :: ('w, 'soup) crawl_state).
                        nat (max_pages ctx - int (fcard (visited st))),
                      \<lambda>(ctx, st). length (to_visit st)])"
    by simp
next
  fix ctx :: "('w, 'soup) crawl_ctx" and st :: "('w, 'soup) crawl_state"
  assume g: "crawl_guard ctx st"
  then obtain url rest where q: "to_visit st = url # rest"
    by (cases "to_visit st") (auto simp: crawl_guard_def)
  from g have lt: "int (fcard (visited st)) < max_pages ctx"
    by (simp add: crawl_guard_def)
  show "((ctx, crawl_step ctx st), (ctx, st))
          \<in> measures [\<lambda>(ctx, st). nat (max_pages ctx - int (fcard (visited st))),
                        \<lambda>(ctx, st). length (to_visit st)]"
  proof (cases "url |\<in>| visited st")
    case True
    then show ?thesis using q by (simp add: crawl_step_def)
  next
    case False
    obtain r w where sc: "scrape ctx url (world st) = (r, w)"
      by (cases "scrape ctx url (world st)")
    show ?thesis
    proof (cases r)
      case (Inl e)
      then show ?thesis using q False sc by (simp add: crawl_step_def)
    next
      case (Inr soup)
      have "fcard (finsert url (visited st)) = Suc (fcard (visited st))"
        using False by (simp add: fcard_finsert_disjoint)
      then show ?thesis using q False sc Inr lt
        by (simp add: crawl_step_def Let_def)
    qed
  qed
qed

declare crawl_loop.simps [simp del]

text \<open>
  \<^verbatim>\<open>SmartScraper.crawl(start_url, max_pages, same_domain, link_filter)\<close>: the base domain is
  computed outside the \<open>try\<close>, so its error is raised to the caller.
\<close>

definition crawl_init :: "string \<Rightarrow> 'w \<Rightarrow> ('w, 'soup) crawl_state" where
  "crawl_init start_url w =
     \<lparr>to_visit = [start_url], visited = {||}, results = [], world = w, crawl_errors = []\<rparr>"

definition crawl ::
  "('w, 'soup) crawl_ctx \<Rightarrow> string \<Rightarrow> 'w \<Rightarrow> (exn + 'soup list) \<times> 'w" where
  "crawl ctx start_url w =
     (case netloc ctx start_url of
        Inl e \<Rightarrow> (Inl e, w)
      | Inr d \<Rightarrow>
          let st = crawl_loop (ctx\<lparr>base_domain := d\<rparr>) (crawl_init start_url w)
          in (Inr (results st), world st))"

section \<open>core/async\_scraper.py\<close>

text \<open>
  The retry loop of \<^verbatim>\<open>AsyncScraper.fetch\<close> over the remaining values of \<open>attempt\<close>:
  \<open>req k\<close> is the outcome of the \<open>k\<close>-th run of the \<open>try\<close> body (request, status check and
  read). \<^verbatim>\<open>asyncio.sleep(2 ** attempt)\<close> raises \<open>OverflowError\<close> when the int is too large for
  a float. Falling out of the loop returns \<open>None\<close>.
\<close>

fun async_fetch_loop ::
  "int \<Rightarrow> (nat \<Rightarrow> exn + 'a) \<Rightarrow> nat list \<Rightarrow> nat \<Rightarrow> real list \<Rightarrow> (exn + 'a option) \<times> nat \<times> real list" where
  "async_fetch_loop m req [] calls sleeps = (Inr None, calls, sleeps)"
| "async_fetch_loop m req (attempt # rest) calls sleeps =
     (case req calls of
        Inr resp \<Rightarrow> (Inr (Some resp), Suc calls, sleeps)
      | Inl e \<Rightarrow>
          if int attempt = m - 1 then (Inl e, Suc calls, sleeps)
          else if float_max < 2 ^ attempt then (Inl OverflowError, Suc calls, sleeps)
          else async_fetch_loop m req rest (Suc calls) (sleeps @ [2 ^ attempt]))"

text \<open>
  \<^verbatim>\<open>AsyncScraper.fetch(url)\<close> with \<open>config.max_retries = m\<close> and \<open>config.delay_range\<close>:
  validation, the politeness delay, then the loop. \<^verbatim>\<open>asyncio.sleep\<close> returns at once for a
  delay that is not positive, where \<^verbatim>\<open>time.sleep\<close> would raise.
\<close>

definition async_fetch ::
  "extern \<Rightarrow> int \<Rightarrow> real \<times> real \<Rightarrow> real \<Rightarrow> (nat \<Rightarrow> exn + 'a) \<Rightarrow> string \<Rightarrow> (exn + 'a option) \<times> nat \<times> real list" where
  "async_fetch ext m drange delay_u req url =
     (case validate ext [''http'', ''https''] url of
        Inl e \<Rightarrow> (Inl e, 0, [])
      | Inr ok \<Rightarrow>
          let delay = uniform (fst drange) (snd drange) delay_u
          in async_fetch_loop m req (py_range m) 0 [delay])"

text \<open>
  \<^verbatim>\<open>AsyncScraper.fetch_many(urls)\<close>: \<open>gathered\<close> is what \<^verbatim>\<open>asyncio.gather\<close> returns, the
  outcome of the task of each URL in the order of \<open>urls\<close>; the exceptions are dropped.
\<close>

fun async_filter :: "(string \<times> (exn + 'r)) list \<Rightarrow> 'r list \<Rightarrow> 'r list" where
  "async_filter [] valid_results = valid_results"
| "async_filter ((url, Inl e) # rest) valid_results = async_filter rest valid_results"
| "async_filter ((url, Inr r) # rest) valid_results = async_filter rest (valid_results @ [r])"

definition async_fetch_many :: "(string \<Rightarrow> exn + 'r) \<Rightarrow> string list \<Rightarrow> 'r list" where
  "async_fetch_many task urls =
     (let gathered = map task urls
      in async_filter (zip urls gathered) [])"

section \<open>Concrete inputs\<close>

text \<open>
  Inputs at which the statements below are evaluated. The library functions of \<open>demo_ext\<close>
  are stand-ins (the statements hold for every \<open>extern\<close>); \<open>half\<close> is a constant draw of
  \<^verbatim>\<open>random()\<close>.
\<close>

definition demo_ext :: extern where
  "demo_ext = \<lparr>md5 = (\<lambda>s. s), validators_url = (\<lambda>s. True),
               urlparse_scheme = (\<lambda>s. ''https''), urlparse_netloc = (\<lambda>s. ''a.example'')\<rparr>"

definition half :: "nat \<Rightarrow> real" where
  "half k = 1 / 2"

definition always_fails :: "nat \<Rightarrow> exn + response" where
  "always_fails k = Inl RequestException"

text \<open>The default limiter \<^verbatim>\<open>AdaptiveRateLimiter()\<close>, built when the clock reads 0.\<close>

definition default_limiter :: AdaptiveRateLimiter where
  "default_limiter = AdaptiveRateLimiter_init 2 0.1 10 0"

text \<open>\<^verbatim>\<open>RetryManager(max_retries=2)\<close>, as \<open>SmartScraper\<close> builds it for \<open>config.max_retries = 2\<close>.\<close>

definition two_retries :: RetryManager where
  "two_retries = RetryManager_init 2"

text \<open>\<^verbatim>\<open>RetryManager(max_retries=5, exponential_base=1e200)\<close>.\<close>

definition steep_retries :: RetryManager where
  "steep_retries = (RetryManager_init 5)\<lparr>exponential_base := 10 ^ 200\<rparr>"

definition demo_url :: string where
  "demo_url = ''https://a.example/''"



text \<open>A transport that answers every request with status 304, and one that answers 429.\<close>

definition not_modified :: response where
  "not_modified = \<lparr>status_code = 304, content = []\<rparr>"




text \<open>A \<open>fetch\<close> for which \<open>u2\<close> always fails, over a state that it does not use.\<close>

definition u2_fails :: "string \<Rightarrow> unit \<Rightarrow> (exn + string) \<times> unit" where
  "u2_fails url s = (if url = ''u2'' then Inl RequestException else Inr (''page of '' @ url), s)"

definition u2_fails_task :: "string \<Rightarrow> exn + string" where
  "u2_fails_task url = fst (u2_fails url ())"

text \<open>
  A site as a table from URL to the links of its page (\<open>None\<close>: the fetch fails). A parsed
  page is the URL with its links, the world is the list of the URLs fetched so far, every
  \<open>href\<close> is absolute and every URL is in the domain \<open>a.example\<close>.
\<close>

definition site_ctx :: "(string \<Rightarrow> string list option) \<Rightarrow> int \<Rightarrow> (string list, string \<times> string list) crawl_ctx" where
  "site_ctx pages mp =
     \<lparr>scrape = (\<lambda>url w. (case pages url of
                             None \<Rightarrow> Inl RequestException
                           | Some links \<Rightarrow> Inr (url, links), w @ [url])),
      find_all_a_href = snd,
      urljoin = (\<lambda>base href. Inr href),
      netloc = (\<lambda>u. Inr ''a.example''),
      max_pages = mp,
      same_domain = True,
      link_filter = None,
      base_domain = ''a.example''\<rparr>"

text \<open>The site of the breadth-first scenario: the start page links to B and C, B links to D.\<close>

definition bfs_pages :: "string \<Rightarrow> string list option" where
  "bfs_pages url =
     (if url = ''S'' then Some [''B'', ''C'']
      else if url = ''B'' then Some [''D'']
      else if url = ''C'' then Some []
      else if url = ''D'' then Some []
      else None)"

text \<open>A site where S links to B and C, B links to C and S, and the fetch of C fails.\<close>

definition dup_pages :: "string \<Rightarrow> string list option" where
  "dup_pages url =
     (if url = ''S'' then Some [''B'', ''C'']
      else if url = ''B'' then Some [''C'', ''S'']
      else None)"

definition bfs_ctx :: "(string list, string \<times> string list) crawl_ctx" where
  "bfs_ctx = site_ctx bfs_pages 3"

definition dup_ctx :: "(string list, string \<times> string list) crawl_ctx" where
  "dup_ctx = site_ctx dup_pages 10"

text \<open>The crawl of the second site from S: at its start, after the page S, and after the pages S and B.\<close>

definition dup_state0 :: "(string list, string \<times> string list) crawl_state" where
  "dup_state0 = crawl_init ''S'' []"

definition dup_state1 :: "(string list, string \<times> string list) crawl_state" where
  "dup_state1 =
     \<lparr>to_visit = [''B'', ''C''], visited = {|''S''|}, results = [(''S'', [''B'', ''C''])],
      world = [''S''], crawl_errors = []\<rparr>"

definition dup_state :: "(string list, string \<times> string list) crawl_state" where
  "dup_state =
     \<lparr>to_visit = [''C'', ''C''], visited = {|''B'', ''S''|},
      results = [(''S'', [''B'', ''C'']), (''B'', [''C'', ''S''])],
      world = [''S'', ''B''], crawl_errors = []\<rparr>"

text \<open>The same crawl after the first failed fetch of C, and at its end.\<close>

definition dup_state3 :: "(string list, string \<times> string list) crawl_state" where
  "dup_state3 =
     \<lparr>to_visit = [''C''], visited = {|''B'', ''S''|},
      results = [(''S'', [''B'', ''C'']), (''B'', [''C'', ''S''])],
      world = [''S'', ''B'', ''C''], crawl_errors = [(''C'', RequestException)]\<rparr>"

definition dup_state_end :: "(string list, string \<times> string list) crawl_state" where
  "dup_state_end =
     \<lparr>to_visit = [], visited = {|''B'', ''S''|},
      results = [(''S'', [''B'', ''C'']), (''B'', [''C'', ''S''])],
      world = [''S'', ''B'', ''C'', ''C''],
      crawl_errors = [(''C'', RequestException), (''C'', RequestException)]\<rparr>"

section \<open>TokenBucket: the invariant \<open>0 \<le> tokens \<le> capacity\<close>\<close>

lemma add_tokens_le: "tokens (add_tokens now b) \<le> of_int (capacity b)"
  by (simp add: add_tokens_def)

lemma add_tokens_fields:
  "rate (add_tokens now b) = rate b" "capacity (add_tokens now b) = capacity b"
  "last_update (add_tokens now b) = now"
  by (simp_all add: add_tokens_def)

text \<open>With a non-negative rate and a clock that has not gone back, a refill never takes tokens away.\<close>

lemma add_tokens_mono:
  assumes "0 \<le> rate b" "last_update b \<le> now" "tokens b \<le> of_int (capacity b)"
  shows "tokens b \<le> tokens (add_tokens now b)"
proof -
  have "0 \<le> (now - last_update b) * rate b" using assms by simp
  then show ?thesis using assms by (simp add: add_tokens_def)
qed

text \<open>
  For a cost between 0 and the capacity, \<open>acquire\<close> keeps the invariant, blocking or not: after
  the sleep of the blocking path the refill has brought the bucket up to the cost.
\<close>

lemma acquire_inv:
  assumes wf: "tb_wf s" and inv: "tb_inv (snd s)" and n0: "0 \<le> n" and nc: "n \<le> capacity (snd s)"
  shows "tb_inv (snd (snd (acquire n blocking s))) \<and> tb_wf (snd (acquire n blocking s))
         \<and> capacity (snd (snd (acquire n blocking s))) = capacity (snd s)"
proof -
  obtain clk b where s: "s = (clk, b)" by (cases s)
  define b1 where "b1 = add_tokens clk b"
  have r: "0 < rate b" and lu: "last_update b \<le> clk" using wf s by (simp_all add: tb_wf_def)
  have b1f: "rate b1 = rate b" "capacity b1 = capacity b" "last_update b1 = clk"
    by (simp_all add: b1_def add_tokens_fields)
  have b1le: "tokens b1 \<le> of_int (capacity b)" by (simp add: b1_def add_tokens_le)
  have b1ge: "0 \<le> tokens b1"
    using add_tokens_mono[of b clk] r lu inv s by (simp add: b1_def tb_inv_def)
  have n0r: "(0::real) \<le> of_int n" using n0 by simp
  have ncr: "(of_int n::real) \<le> of_int (capacity b)" using nc s by simp
  show ?thesis
  proof (cases "of_int n \<le> tokens b1")
    case True
    then show ?thesis using b1f b1le b1ge n0r r
      by (simp add: acquire_def s Let_def b1_def[symmetric] tb_inv_def tb_wf_def)
  next
    case False
    note nf = False
    show ?thesis
    proof (cases blocking)
      case False
      then show ?thesis using nf b1f b1le b1ge r
        by (simp add: acquire_def s Let_def b1_def[symmetric] tb_inv_def tb_wf_def)
    next
      case True
      define w where "w = (of_int n - tokens b1) / rate b"
      have wpos: "0 \<le> w" using nf r by (simp add: w_def)
      have wneg: "\<not> (of_int n - tokens b1) / rate b < 0" using wpos by (simp add: w_def)
      define b2 where "b2 = add_tokens (clk + w) b1"
      have "w * rate b1 = of_int n - tokens b1" using r b1f by (simp add: w_def)
      then have "tokens b1 + (clk + w - last_update b1) * rate b1 = of_int n"
        using b1f by simp
      then have t2: "tokens b2 = min (of_int (capacity b)) (of_int n)"
        by (simp add: b2_def add_tokens_def b1f)
      then have t2': "tokens b2 = of_int n" using ncr by simp
      have b2f: "rate b2 = rate b" "capacity b2 = capacity b" "last_update b2 = clk + w"
        by (simp_all add: b2_def add_tokens_fields b1f)
      have "acquire n blocking s = (Inr True, clk + w, b2\<lparr>tokens := tokens b2 - of_int n\<rparr>)"
        using nf True r b1f wneg
        by (simp add: acquire_def s Let_def b1_def[symmetric] w_def b2_def)
      then show ?thesis using t2' b2f r n0r ncr
        by (simp add: tb_inv_def tb_wf_def s)
    qed
  qed
qed

lemma op_ok_capacity: "capacity b' = capacity b \<Longrightarrow> op_ok b' x = op_ok b x"
  by (cases x) simp_all

lemma run_op_inv:
  assumes "tb_wf s" "tb_inv (snd s)" "op_ok (snd s) x"
  shows "tb_inv (snd (run_op x s)) \<and> tb_wf (run_op x s) \<and> capacity (snd (run_op x s)) = capacity (snd s)"
proof (cases x)
  case (Acquire n blocking)
  then show ?thesis using assms acquire_inv[of s n blocking] by simp
next
  case (Advance dt)
  then show ?thesis using assms by (simp add: tb_wf_def)
qed

text \<open>
  Hence every history of acquisitions with costs between 0 and the capacity and of forward
  advances of the clock keeps \<open>0 \<le> tokens \<le> capacity\<close>.
\<close>

lemma run_ops_inv:
  assumes "tb_wf s" "tb_inv (snd s)" "\<forall>x\<in>set xs. op_ok (snd s) x"
  shows "tb_inv (snd (run_ops xs s))"
  using assms
proof (induction xs arbitrary: s)
  case Nil
  then show ?case by simp
next
  case (Cons x xs)
  have st: "tb_inv (snd (run_op x s))" "tb_wf (run_op x s)" "capacity (snd (run_op x s)) = capacity (snd s)"
    using run_op_inv[of s x] Cons.prems by simp_all
  have "op_ok (snd (run_op x s)) y" if "y \<in> set xs" for y
    using that Cons.prems(3) op_ok_capacity[OF st(3), of y] by simp
  then show ?case using Cons.IH[of "run_op x s"] st by simp
qed

text \<open>
  A failed non-blocking acquisition changes the bucket by the refill only; a successful one
  takes exactly the cost from the refilled bucket.
\<close>

lemma acquire_nonblocking:
  "acquire n False s =
     (if of_int n \<le> tokens (add_tokens (fst s) (snd s))
      then (Inr True, fst s,
            (add_tokens (fst s) (snd s))\<lparr>tokens := tokens (add_tokens (fst s) (snd s)) - of_int n\<rparr>)
      else (Inr False, fst s, add_tokens (fst s) (snd s)))"
  by (simp add: acquire_def Let_def)

text \<open>
  C1. The claim: after every operation of every history of \<open>acquire\<close> calls and time advances,
  with any cost, blocking or not, \<open>0 \<le> tokens \<le> capacity\<close>. The code at a cost above the
  capacity: a bucket of rate 1 and capacity 5, full at time 0, is asked for 10 tokens,
  blocking. The call sleeps 5 seconds, refills to the cap 5, takes 10 and returns \<open>True\<close>,
  leaving \<open>tokens = -5\<close>.
\<close>

theorem C1_acquire_above_capacity:
  "acquire 10 True (0, TokenBucket_init 1 5 0)
     = (Inr True, 5, \<lparr>rate = 1, capacity = 5, tokens = - 5, last_update = 5\<rparr>)
   \<and> \<not> tb_inv (snd (run_ops [Acquire 10 True] (0, TokenBucket_init 1 5 0)))"
  by (simp add: acquire_def TokenBucket_init_def add_tokens_def Let_def tb_inv_def)

text \<open>
  The same through the limiter with its default arguments: three reports of 429 bring the
  rate to 0.25 and rebuild the bucket with capacity \<open>int(0.5) = 0\<close>; the next \<open>acquire()\<close>
  returns \<open>True\<close> and leaves \<open>tokens = -1\<close>.
\<close>

lemma default_limiter_after_429s:
  "current_rps (report_many 3 429 default_limiter) = 1 / 4
   \<and> capacity (bucket (report_many 3 429 default_limiter)) = 0
   \<and> fst (arl_acquire (0, report_many 3 429 default_limiter)) = Inr True
   \<and> tokens (bucket (snd (snd (arl_acquire (0, report_many 3 429 default_limiter))))) = - 1"
  by (simp add: numeral_3_eq_3 default_limiter_def AdaptiveRateLimiter_init_def report_response_def
      TokenBucket_init_def py_int_def arl_acquire_def acquire_def add_tokens_def Let_def)

section \<open>AdaptiveRateLimiter: adapting the rate\<close>

lemma report_200_current:
  "current_rps (report_response now 200 a) = min (max_rps a) (current_rps a * 1.1)"
  "max_rps (report_response now 200 a) = max_rps a"
  "min_rps (report_response now 200 a) = min_rps a"
  by (simp_all add: report_response_def Let_def)

lemma report_many_snoc:
  "report_many (Suc k) sc a = report_response 0 sc (report_many k sc a)"
  by (induction k arbitrary: a) simp_all

lemma report_many_200_bounds:
  assumes "0 < current_rps a" "current_rps a \<le> max_rps a"
  shows "0 < current_rps (report_many k 200 a) \<and> current_rps (report_many k 200 a) \<le> max_rps a
         \<and> max_rps (report_many k 200 a) = max_rps a"
  using assms
proof (induction k arbitrary: a)
  case 0
  then show ?case by simp
next
  case (Suc k)
  have "0 < current_rps (report_response 0 200 a)"
    using Suc.prems by (simp add: report_200_current)
  moreover have "current_rps (report_response 0 200 a) \<le> max_rps (report_response 0 200 a)"
    by (simp add: report_200_current)
  ultimately show ?case
    using Suc.IH[of "report_response 0 200 a"] by (simp add: report_200_current)
qed

text \<open>
  C6. From a positive rate not above \<open>max_rps\<close>, each of 10 consecutive reports of status 200
  strictly raises \<open>current_rps\<close> while it is below \<open>max_rps\<close>, keeps it at \<open>max_rps\<close> once
  there, and never leaves it above \<open>max_rps\<close>; one report of 429 sets it to the maximum of
  \<open>min_rps\<close> and half of its value.
\<close>

theorem C6_adaptive_rate:
  assumes "0 < current_rps a" "current_rps a \<le> max_rps a"
  shows "(\<forall>k<10. (current_rps (report_many k 200 a) < max_rps a
                    \<longrightarrow> current_rps (report_many k 200 a) < current_rps (report_many (Suc k) 200 a))
               \<and> (current_rps (report_many k 200 a) = max_rps a
                    \<longrightarrow> current_rps (report_many (Suc k) 200 a) = max_rps a)
               \<and> current_rps (report_many (Suc k) 200 a) \<le> max_rps a)
         \<and> current_rps (report_response now 429 a) = max (min_rps a) (current_rps a / 2)"
proof -
  have step: "(current_rps (report_many k 200 a) < max_rps a
                 \<longrightarrow> current_rps (report_many k 200 a) < current_rps (report_many (Suc k) 200 a))
            \<and> (current_rps (report_many k 200 a) = max_rps a
                 \<longrightarrow> current_rps (report_many (Suc k) 200 a) = max_rps a)
            \<and> current_rps (report_many (Suc k) 200 a) \<le> max_rps a" for k
  proof -
    define b where "b = report_many k 200 a"
    have b: "0 < current_rps b" "current_rps b \<le> max_rps a" "max_rps b = max_rps a"
      using report_many_200_bounds[OF assms, of k] by (simp_all add: b_def)
    have c: "current_rps (report_many (Suc k) 200 a) = min (max_rps a) (current_rps b * 1.1)"
      by (simp only: report_many_snoc report_200_current b_def[symmetric] b(3))
    show ?thesis unfolding c b_def[symmetric] using b by (auto simp: min_def)
  qed
  have "current_rps (report_response now 429 a) = max (min_rps a) (current_rps a / 2)"
    by (simp add: report_response_def Let_def)
  with step show ?thesis by blast
qed

theorem C6_adaptive_rate_witness:
  "0 < current_rps default_limiter \<and> current_rps default_limiter \<le> max_rps default_limiter
   \<and> current_rps (report_many 0 200 default_limiter) < max_rps default_limiter
   \<and> current_rps (report_many 0 200 default_limiter) < current_rps (report_many (Suc 0) 200 default_limiter)
   \<and> current_rps (report_many (Suc 9) 200 default_limiter) \<le> max_rps default_limiter
   \<and> current_rps (report_response 0 429 default_limiter) = 1"
proof -
  have h: "0 < current_rps default_limiter" "current_rps default_limiter \<le> max_rps default_limiter"
    by (simp_all add: default_limiter_def AdaptiveRateLimiter_init_def)
  have m: "max (min_rps default_limiter) (current_rps default_limiter / 2) = 1"
    by (simp add: default_limiter_def AdaptiveRateLimiter_init_def)
  have lt: "current_rps (report_many 0 200 default_limiter) < max_rps default_limiter"
    by (simp add: default_limiter_def AdaptiveRateLimiter_init_def)
  note t = C6_adaptive_rate[OF h, of 0]
  have z: "(0::nat) < 10" "(9::nat) < 10" by simp_all
  from t z(1) lt have "current_rps (report_many 0 200 default_limiter)
                 < current_rps (report_many (Suc 0) 200 default_limiter)"
    by blast
  moreover from t z(2) have "current_rps (report_many (Suc 9) 200 default_limiter) \<le> max_rps default_limiter"
    by blast
  moreover from t have "current_rps (report_response 0 429 default_limiter) = 1"
    using m by simp
  ultimately show ?thesis using h lt by blast
qed

section \<open>RetryManager: delay and attempts\<close>






lemma execute_loop_calls:
  "fst (snd (execute_loop rm func us as lst calls sleeps)) \<le> calls + length as"
proof (induction as arbitrary: lst calls sleeps)
  case Nil
  then show ?case by (simp split: option.splits)
next
  case (Cons a as)
  have r1: "fst (snd (execute_loop rm func us as l (Suc calls) sl)) \<le> Suc calls + length as" for l sl
    using Cons.IH[of l "Suc calls" sl] .
  show ?case
    using r1 by (auto simp: Let_def split: sum.splits intro: le_trans)
qed

text \<open>
  When the loop over the attempts \<open>k, ..., M\<close> (with \<open>max_retries = M\<close>) has made the last
  invocation and that one failed, the loop raises that failure.
\<close>

lemma execute_loop_final:
  assumes "k \<le> M" "max_retries rm = int M" "N = Suc M"
    and "execute_loop rm func us [k..<N] lst k sleeps = (res, calls, sl)"
    and "calls = N" "func M = Inl e"
  shows "res = Inl e"
  using assms
proof (induction "M - k" arbitrary: k lst sleeps)
  case 0
  then have k: "k = M" by simp
  have "[M..<N] = [M]" using \<open>N = Suc M\<close> by simp
  then show ?case using 0 k by (simp add: Let_def split: if_splits)
next
  case (Suc j)
  then have lt: "k < M" by simp
  then have l: "[k..<N] = k # [Suc k..<N]" using \<open>N = Suc M\<close> by (simp add: upt_conv_Cons)
  have run: "execute_loop rm func us (k # [Suc k..<N]) lst k sleeps = (res, calls, sl)"
    using Suc.prems(4) l by simp
  have cN: "calls \<noteq> Suc k" using Suc.prems(3,5) lt by simp
  have ik: "int k < max_retries rm" using lt Suc.prems(2) by simp
  show ?case
  proof (cases "func k")
    case (Inr v)
    then show ?thesis using run cN by simp
  next
    case (Inl e')
    note fk = Inl
    show ?thesis
    proof (cases "retry_exceptions rm e'")
      case False
      then show ?thesis using run cN fk by simp
    next
      case True
      show ?thesis
      proof (cases "calculate_delay rm k (us k)")
        case (Inl e'')
        then show ?thesis using run cN fk True ik by simp
      next
        case (Inr delay)
        show ?thesis
        proof (cases "delay < 0")
          case True
          then show ?thesis using run cN fk \<open>retry_exceptions rm e'\<close> ik Inr by simp
        next
          case False
          then have "execute_loop rm func us [Suc k..<N] (Some e') (Suc k) (sleeps @ [delay])
                       = (res, calls, sl)"
            using run fk True ik Inr by simp
          moreover have "j = M - Suc k" using Suc.hyps(2) by simp
          ultimately show ?thesis using Suc.hyps(1)[of "Suc k"] Suc.prems lt by simp
        qed
      qed
    qed
  qed
qed

lemma async_fetch_loop_calls:
  "fst (snd (async_fetch_loop m req as calls sleeps)) \<le> calls + length as"
proof (induction as arbitrary: calls sleeps)
  case Nil
  then show ?case by simp
next
  case (Cons a as)
  have r1: "fst (snd (async_fetch_loop m req as (Suc calls) sl)) \<le> Suc calls + length as" for sl
    using Cons.IH[of "Suc calls" sl] .
  show ?case
    using r1 by (auto simp: Let_def split: sum.splits intro: le_trans)
qed

lemma async_fetch_loop_final:
  assumes "k < M" "m = int M"
    and "async_fetch_loop m req [k..<M] k sleeps = (res, calls, sl)"
    and "calls = M" "req (M - 1) = Inl e"
  shows "res = Inl e"
  using assms
proof (induction "M - k" arbitrary: k sleeps)
  case 0
  then show ?case by simp
next
  case (Suc j)
  then have l: "[k..<M] = k # [Suc k..<M]" by (simp add: upt_conv_Cons)
  show ?case
  proof (cases "Suc k = M")
    case True
    then have "int k = m - 1" "M - 1 = k" using Suc.prems by auto
    then show ?thesis using Suc.prems by (auto simp: l split: sum.splits)
  next
    case False
    then have lt: "Suc k < M" using Suc.prems by simp
    have ne: "int k \<noteq> m - 1" using lt Suc.prems by simp
    show ?thesis
    proof (cases "req k")
      case (Inr v)
      then show ?thesis using Suc.prems lt l by simp
    next
      case (Inl e')
      show ?thesis
      proof (cases "float_max < (2::real) ^ k")
        case True
        then show ?thesis using Suc.prems ne lt Inl by (simp add: l)
      next
        case False
        then have "async_fetch_loop m req [Suc k..<M] (Suc k) (sleeps @ [2 ^ k]) = (res, calls, sl)"
          using Suc.prems ne Inl by (simp add: l)
        moreover have "j = M - Suc k" using Suc.hyps(2) by simp
        ultimately show ?thesis using Suc.hyps(1)[of "Suc k"] Suc.prems lt by simp
      qed
    qed
  qed
qed

text \<open>
  C4. For \<open>max_retries \<ge> 0\<close>, \<open>RetryManager.execute\<close> invokes the operation at most
  \<open>max_retries + 1\<close> times, and when the invocation number \<open>max_retries + 1\<close> is made and fails,
  \<open>execute\<close> raises that failure. The loop of \<open>AsyncScraper.fetch\<close> invokes the request at
  most \<open>max_retries\<close> times (so at most \<open>max_retries + 1\<close> times), and when its last
  invocation, number \<open>max_retries\<close>, is made and fails, \<open>fetch\<close> raises that failure.
\<close>

theorem C4_retry_attempts:
  assumes "0 \<le> max_retries rm" "0 \<le> m"
    and "execute rm func us = (res, calls, sleeps)"
    and "async_fetch ext m drange delay_u req url = (ares, acalls, asleeps)"
  shows "calls \<le> nat (max_retries rm) + 1
       \<and> (\<forall>e. calls = nat (max_retries rm) + 1 \<and> func (nat (max_retries rm)) = Inl e \<longrightarrow> res = Inl e)
       \<and> acalls \<le> nat m \<and> acalls \<le> nat m + 1
       \<and> (\<forall>e. 0 < acalls \<and> acalls = nat m \<and> req (nat m - 1) = Inl e \<longrightarrow> ares = Inl e)"
proof -
  define M where "M = nat (max_retries rm)"
  have M: "max_retries rm = int M" using assms(1) by (simp add: M_def)
  note ex = assms(3)
  have r: "py_range (max_retries rm + 1) = [0..<Suc M]"
    by (simp add: py_range_def M nat_add_distrib)
  have ex': "execute_loop rm func us [0..<Suc M] None 0 [] = (res, calls, sleeps)"
    using ex by (simp only: execute_def r)
  have c1: "calls \<le> M + 1"
    using execute_loop_calls[of rm func us "[0..<Suc M]" None 0 "[]"] by (simp only: ex') simp
  have c2: "res = Inl e" if "calls = M + 1" "func M = Inl e" for e
    using execute_loop_final[OF _ M refl ex'] that by simp
  define N where "N = nat m"
  have N: "m = int N" using assms(2) by (simp add: N_def)
  note af = assms(4)
  have afl: "async_fetch_loop m req [0..<N] 0 [uniform (fst drange) (snd drange) delay_u]
               = (ares, acalls, asleeps)"
    if "validate ext [''http'', ''https''] url = Inr ok" for ok
    using af that by (simp add: async_fetch_def Let_def py_range_def N_def)
  have d1: "acalls \<le> N"
  proof (cases "validate ext [''http'', ''https''] url")
    case (Inl e)
    then show ?thesis using af by (simp add: async_fetch_def)
  next
    case (Inr ok)
    show ?thesis
      using async_fetch_loop_calls[of m req "[0..<N]" 0 "[uniform (fst drange) (snd drange) delay_u]"]
      by (simp add: afl[OF Inr])
  qed
  have d2: "ares = Inl e" if "0 < acalls" "acalls = N" "req (N - 1) = Inl e" for e
  proof (cases "validate ext [''http'', ''https''] url")
    case (Inl e)
    then show ?thesis using af that by (simp add: async_fetch_def)
  next
    case (Inr ok)
    show ?thesis
      using async_fetch_loop_final[OF _ N afl[OF Inr]] that by simp
  qed
  show ?thesis
    using c1 c2 d1 d2 unfolding M_def[symmetric] N_def[symmetric] by auto
qed

text \<open>
  With every attempt failing and \<open>max_retries = 2\<close>: \<open>execute\<close> makes 3 invocations, sleeps
  twice and raises the failure; the loop of \<open>AsyncScraper.fetch\<close> makes 2 invocations, sleeps
  the politeness delay and once more, and raises the failure.
\<close>

lemma execute_two_retries:
  "execute two_retries always_fails half = (Inl RequestException, 3, [1, 2])"
  by (simp add: execute_def py_range_def two_retries_def RetryManager_init_def always_fails_def
      half_def calculate_delay_def backoff_def py_pow_def float_max_def uniform_def Let_def
      upt_rec numeral_3_eq_3)

lemma async_fetch_two_retries:
  "async_fetch demo_ext 2 (1 / 2, 3 / 2) (1 / 2) always_fails demo_url
     = (Inl RequestException, 2, [1, 1])"
  by (simp add: async_fetch_def validate_def demo_ext_def demo_url_def uniform_def py_range_def
      always_fails_def float_max_def Let_def upt_rec numeral_2_eq_2)

theorem C4_retry_attempts_witness:
  "0 \<le> max_retries two_retries \<and> (0::int) \<le> 2
   \<and> execute two_retries always_fails half = (Inl RequestException, 3, [1, 2])
   \<and> async_fetch demo_ext 2 (1 / 2, 3 / 2) (1 / 2) always_fails demo_url
       = (Inl RequestException, 2, [1, 1])
   \<and> (3::nat) \<le> nat (max_retries two_retries) + 1
   \<and> (2::nat) \<le> nat 2 \<and> (2::nat) \<le> nat 2 + 1"
proof -
  have h: "0 \<le> max_retries two_retries" "(0::int) \<le> 2"
    by (simp_all add: two_retries_def RetryManager_init_def)
  show ?thesis
    using h C4_retry_attempts[OF h execute_two_retries async_fetch_two_retries]
      execute_two_retries async_fetch_two_retries
    by simp
qed

text \<open>
  The two loops differ by one attempt: for \<open>max_retries = 0\<close> the loop of
  \<open>AsyncScraper.fetch\<close> is empty, the request is never made and \<open>fetch\<close> returns \<open>None\<close>.
\<close>

lemma async_fetch_no_retries:
  "async_fetch demo_ext 0 (1 / 2, 3 / 2) (1 / 2) always_fails demo_url = (Inr None, 0, [1])"
  by (simp add: async_fetch_def validate_def demo_ext_def demo_url_def uniform_def py_range_def Let_def)

text \<open>
  A negative politeness delay does not stop \<open>AsyncScraper.fetch\<close> (\<^verbatim>\<open>asyncio.sleep\<close> returns at
  once): the requests are made all the same.
\<close>

lemma async_fetch_negative_delay:
  "async_fetch demo_ext 2 (- 2, - 1) (1 / 2) always_fails demo_url
     = (Inl RequestException, 2, [- 3 / 2, 1])"
  by (simp add: async_fetch_def validate_def demo_ext_def demo_url_def uniform_def py_range_def
      always_fails_def float_max_def Let_def upt_rec numeral_2_eq_2)

text \<open>
  An exception of \<open>calculate_delay\<close> leaves \<open>execute\<close> from inside the handler: with
  \<open>exponential_base = 10 ^ 200\<close> and five retries allowed, the third failure is followed by
  the overflow of the power, and \<open>execute\<close> raises it after 3 invocations.
\<close>

lemma execute_steep_retries:
  "execute steep_retries always_fails half = (Inl OverflowError, 3, [1, 60])"
  by (simp add: execute_def py_range_def steep_retries_def RetryManager_init_def always_fails_def
      half_def calculate_delay_def backoff_def py_pow_def float_max_def uniform_def Let_def
      upt_rec numeral_3_eq_3)

section \<open>CacheManager: the time to live of a stored entry\<close>

lemma map_of_filter_key: "map_of (filter (\<lambda>(k', v', e). k' \<noteq> k) xs) k = None"
  by (induction xs) auto

lemma map_of_stored: "map_of (filter (\<lambda>(k', v', e). k' \<noteq> k) xs @ [(k, v, e)]) k = Some (v, e)"
  by (simp add: map_add_def map_of_filter_key)

lemma ttl_setitem_stored:
  assumes "1 \<le> maxsize c"
  shows "\<exists>c'. ttl_setitem c k v now = Inr c' \<and> map_of (items c') k = Some (v, now + ttl c)
              \<and> ttl c' = ttl c \<and> maxsize c' = maxsize c"
  using assms by (simp add: ttl_setitem_def Let_def map_add_def map_of_filter_key)

text \<open>
  C10. With the memory backend the \<open>ttl\<close> argument of \<open>set\<close> has no effect: the result of
  \<open>set\<close> is the same for every \<open>ttl\<close>, and (for \<open>maxsize \<ge> 1\<close>) the stored entry is served
  exactly until \<open>now + ttl\<close> with the \<open>ttl\<close> of the constructor. With the disk backend the
  entry expires at \<open>now + ttl\<close> with the \<open>ttl\<close> of the call.
\<close>

theorem C10_memory_set_ignores_ttl:
  assumes "1 \<le> maxsize c"
  shows "cm_set h (Memory c) key v t now = cm_set h (Memory c) key v t' now
       \<and> (\<exists>c'. cm_set h (Memory c) key v t now = Inr (Memory c')
               \<and> cm_expiry h (Memory c') key = Some (Some (now + ttl c))
               \<and> (\<forall>now'. cm_get h (Memory c') key now' = (if now' < now + ttl c then Some v else None)))
       \<and> (\<exists>d'. cm_set h (Disk d) key v t now = Inr (Disk d')
               \<and> cm_expiry h (Disk d') key = Some (map_option (\<lambda>x. now + of_int x) t))"
proof -
  obtain c' where c': "ttl_setitem c (h key) v now = Inr c'"
      "map_of (items c') (h key) = Some (v, now + ttl c)"
    using ttl_setitem_stored[OF assms, of "h key" v now] by blast
  have 1: "cm_set h (Memory c) key v t now = cm_set h (Memory c) key v t' now"
    by (simp add: cm_set_def)
  have 2: "cm_set h (Memory c) key v t now = Inr (Memory c')"
    using c'(1) by (simp add: cm_set_def make_key_def)
  have 3: "cm_expiry h (Memory c') key = Some (Some (now + ttl c))"
    using c'(2) by (simp add: cm_expiry_def make_key_def)
  have 4: "cm_get h (Memory c') key now' = (if now' < now + ttl c then Some v else None)" for now'
    using c'(2) by (simp add: cm_get_def make_key_def ttl_lookup_def)
  have 5: "cm_set h (Disk d) key v t now = Inr (Disk (disk_set d (h key) v t now))"
    by (simp add: cm_set_def make_key_def)
  have 6: "cm_expiry h (Disk (disk_set d (h key) v t now)) key
             = Some (map_option (\<lambda>x. now + of_int x) t)"
    by (simp add: cm_expiry_def make_key_def disk_set_def)
  from 1 2 3 4 5 6 show ?thesis by blast
qed

text \<open>
  The cache of \<open>SmartScraper\<close> (\<open>maxsize = 1000\<close>, \<open>ttl = 3600\<close>), asked at time 0 to store an
  entry for 60 seconds, serves it at time 100; a disk cache asked the same does not.
\<close>

lemma memory_set_60:
  "cm_set (md5 demo_ext) (Memory (TTLCache_init 1000 3600)) ''k'' not_modified (Some 60) 0
     = Inr (Memory \<lparr>maxsize = 1000, ttl = 3600, items = [(''k'', not_modified, 3600)]\<rparr>)"
  by (simp add: cm_set_def make_key_def demo_ext_def ttl_setitem_def TTLCache_init_def
      ttl_expire_def ttl_evict_def Let_def)

theorem C10_memory_set_ignores_ttl_witness:
  "1 \<le> maxsize (TTLCache_init 1000 3600 :: response TTLCache)
   \<and> cm_set (md5 demo_ext) (Memory (TTLCache_init 1000 3600)) ''k'' not_modified (Some 60) 0
       = cm_set (md5 demo_ext) (Memory (TTLCache_init 1000 3600)) ''k'' not_modified None 0
   \<and> cm_expiry (md5 demo_ext)
        (Memory \<lparr>maxsize = 1000, ttl = 3600, items = [(''k'', not_modified, 3600)]\<rparr>) ''k''
       = Some (Some 3600)
   \<and> cm_get (md5 demo_ext)
        (Memory \<lparr>maxsize = 1000, ttl = 3600, items = [(''k'', not_modified, 3600)]\<rparr>) ''k'' 100
       = Some not_modified
   \<and> cm_expiry (md5 demo_ext) (Disk (disk_set [] ''k'' not_modified (Some 60) 0)) ''k''
       = Some (Some 60)
   \<and> cm_get (md5 demo_ext) (Disk (disk_set [] ''k'' not_modified (Some 60) 0)) ''k'' 100 = None"
proof -
  have h: "1 \<le> maxsize (TTLCache_init 1000 3600 :: response TTLCache)"
    by (simp add: TTLCache_init_def)
  note t = C10_memory_set_ignores_ttl[OF h, of "md5 demo_ext" "''k''" not_modified "Some 60" 0 None "[]"]
  have a: "cm_set (md5 demo_ext) (Memory (TTLCache_init 1000 3600)) ''k'' not_modified (Some 60) 0
       = cm_set (md5 demo_ext) (Memory (TTLCache_init 1000 3600)) ''k'' not_modified None 0"
    using t by blast
  from t obtain c' :: "response TTLCache" where c':
    "cm_set (md5 demo_ext) (Memory (TTLCache_init 1000 3600)) ''k'' not_modified (Some 60) 0
       = Inr (Memory c')"
    "cm_expiry (md5 demo_ext) (Memory c') ''k''
       = Some (Some (0 + ttl (TTLCache_init 1000 3600 :: response TTLCache)))"
    "\<forall>now'. cm_get (md5 demo_ext) (Memory c') ''k'' now'
       = (if now' < 0 + ttl (TTLCache_init 1000 3600 :: response TTLCache) then Some not_modified else None)"
    by blast
  have eq: "c' = \<lparr>maxsize = 1000, ttl = 3600, items = [(''k'', not_modified, 3600)]\<rparr>"
    using c'(1) by (simp only: memory_set_60 sum.inject CacheManager.inject)
  have b: "cm_expiry (md5 demo_ext)
        (Memory \<lparr>maxsize = 1000, ttl = 3600, items = [(''k'', not_modified, 3600)]\<rparr>) ''k''
       = Some (Some 3600)"
    "cm_get (md5 demo_ext)
        (Memory \<lparr>maxsize = 1000, ttl = 3600, items = [(''k'', not_modified, 3600)]\<rparr>) ''k'' 100
       = Some not_modified"
    using c'(2) c'(3)[rule_format, of 100] unfolding eq by (simp_all add: TTLCache_init_def)
  have c: "cm_expiry (md5 demo_ext) (Disk (disk_set [] ''k'' not_modified (Some 60) 0)) ''k''
       = Some (Some 60)"
    "cm_get (md5 demo_ext) (Disk (disk_set [] ''k'' not_modified (Some 60) 0)) ''k'' 100 = None"
    by (simp_all add: cm_expiry_def cm_get_def make_key_def demo_ext_def disk_set_def disk_lookup_def)
  from h a b c show ?thesis by blast
qed

section \<open>SmartScraper.fetch: what reaches the cache\<close>












section \<open>fetch\_many: what a failed fetch leaves in the result\<close>

lemma async_filter_eq:
  "async_filter (zip urls (map task urls)) acc
     = acc @ List.map_filter (\<lambda>u. case task u of Inl e \<Rightarrow> None | Inr r \<Rightarrow> Some r) urls"
proof (induction urls arbitrary: acc)
  case Nil
  then show ?case by (simp add: List.map_filter_simps)
next
  case (Cons u urls)
  then show ?case by (cases "task u") (simp_all add: List.map_filter_simps)
qed

lemma fetch_many_loop_length:
  "length (fst (fetch_many_loop f urls acc s)) = length acc + length urls"
proof (induction urls arbitrary: acc s)
  case Nil
  then show ?case by simp
next
  case (Cons u urls)
  obtain r s' where fu: "f u s = (r, s')" by (cases "f u s")
  show ?case using Cons.IH[of _ s'] fu by (cases r) simp_all
qed

lemma fetch_many_loop_map:
  assumes "\<And>u s. fst (f u s) = g u"
  shows "fst (fetch_many_loop f urls acc s)
           = acc @ map (\<lambda>u. case g u of Inl e \<Rightarrow> None | Inr r \<Rightarrow> Some r) urls"
proof (induction urls arbitrary: acc s)
  case Nil
  then show ?case by simp
next
  case (Cons u urls)
  obtain r s' where fu: "f u s = (r, s')" by (cases "f u s")
  then have g: "g u = r" using assms[of u s] by simp
  show ?case using Cons.IH[of _ s'] fu g by (cases r) simp_all
qed

text \<open>
  C8, as the code has it. \<open>AsyncScraper.fetch_many\<close> returns exactly the successful results
  in the order of the input, the failed URLs left out. \<open>SmartScraper.fetch_many\<close> returns
  one entry for every input URL, in the order of the input, and that entry is \<open>None\<close> where
  the fetch failed (stated for a \<open>fetch\<close> whose outcome depends on the URL only).
\<close>

theorem C8_fetch_many_results:
  "async_fetch_many task urls
     = List.map_filter (\<lambda>u. case task u of Inl e \<Rightarrow> None | Inr r \<Rightarrow> Some r) urls
   \<and> length (fst (fetch_many f urls s)) = length urls
   \<and> ((\<forall>u s. fst (f u s) = g u) \<longrightarrow>
        fst (fetch_many f urls s) = map (\<lambda>u. case g u of Inl e \<Rightarrow> None | Inr r \<Rightarrow> Some r) urls)"
proof -
  have 1: "async_fetch_many task urls
     = List.map_filter (\<lambda>u. case task u of Inl e \<Rightarrow> None | Inr r \<Rightarrow> Some r) urls"
    by (simp add: async_fetch_many_def Let_def async_filter_eq)
  have 2: "length (fst (fetch_many f urls s)) = length urls"
    by (simp add: fetch_many_def fetch_many_loop_length)
  have 3: "fst (fetch_many f urls s) = map (\<lambda>u. case g u of Inl e \<Rightarrow> None | Inr r \<Rightarrow> Some r) urls"
    if "\<forall>u s. fst (f u s) = g u"
    using fetch_many_loop_map[of f g urls "[]" s] that by (simp add: fetch_many_def)
  from 1 2 3 show ?thesis by blast
qed

lemma u2_fails_task_values:
  "u2_fails_task ''u1'' = Inr ''page of u1''" "u2_fails_task ''u2'' = Inl RequestException"
  "u2_fails_task ''u3'' = Inr ''page of u3''"
  by (simp_all add: u2_fails_task_def u2_fails_def)

theorem C8_fetch_many_results_witness:
  "(\<forall>u s. fst (u2_fails u s) = u2_fails_task u)
   \<and> async_fetch_many u2_fails_task [''u1'', ''u2'', ''u3''] = [''page of u1'', ''page of u3'']
   \<and> length (fst (fetch_many u2_fails [''u1'', ''u2'', ''u3''] ())) = 3
   \<and> fst (fetch_many u2_fails [''u1'', ''u2'', ''u3''] ())
       = [Some ''page of u1'', None, Some ''page of u3'']"
proof -
  have h: "\<forall>u s. fst (u2_fails u s) = u2_fails_task u"
    by (simp add: u2_fails_task_def u2_fails_def)
  note t = C8_fetch_many_results[of u2_fails_task "[''u1'', ''u2'', ''u3'']" u2_fails "()" u2_fails_task]
  have a: "async_fetch_many u2_fails_task [''u1'', ''u2'', ''u3''] = [''page of u1'', ''page of u3'']"
    using t by (simp add: List.map_filter_simps u2_fails_task_values)
  have b: "length (fst (fetch_many u2_fails [''u1'', ''u2'', ''u3''] ())) = 3"
    using t by simp
  have c: "fst (fetch_many u2_fails [''u1'', ''u2'', ''u3''] ())
       = [Some ''page of u1'', None, Some ''page of u3'']"
    using t h by (simp add: u2_fails_task_values)
  from h a b c show ?thesis by blast
qed

text \<open>
  C8 as stated (the failed URLs are omitted and the caller sees fewer results than URLs)
  fails for \<open>SmartScraper.fetch_many\<close>: with \<open>u2\<close> failing the result has three entries, the
  second being \<open>None\<close>.
\<close>

theorem C8_sync_fetch_many_keeps_none:
  "fst (fetch_many u2_fails [''u1'', ''u2'', ''u3''] ())
     = [Some ''page of u1'', None, Some ''page of u3'']
   \<and> \<not> length (fst (fetch_many u2_fails [''u1'', ''u2'', ''u3''] ())) < length [''u1'', ''u2'', ''u3'']"
  by (simp add: fetch_many_def u2_fails_def)

section \<open>SmartScraper.crawl: frontier, visited set, order\<close>

lemma crawl_loop_unfold:
  "crawl_guard ctx st \<Longrightarrow> crawl_loop ctx st = crawl_loop ctx (crawl_step ctx st)"
  by (subst crawl_loop.simps) simp

lemma crawl_loop_stop: "\<not> crawl_guard ctx st \<Longrightarrow> crawl_loop ctx st = st"
  by (subst crawl_loop.simps) simp

text \<open>One anchor either ends the loop, or is skipped, or is appended, and then it is not visited.\<close>

lemma enqueue_links_step:
  "(\<exists>e. enqueue_links ctx url vis (href # hrefs) q = (Some e, q))
   \<or> enqueue_links ctx url vis (href # hrefs) q = enqueue_links ctx url vis hrefs q
   \<or> (\<exists>full_url. full_url |\<notin>| vis
         \<and> enqueue_links ctx url vis (href # hrefs) q = enqueue_links ctx url vis hrefs (q @ [full_url]))"
  by (auto split: sum.splits option.splits bool.splits)

text \<open>The enqueue-time check: what the loop appends to the queue is not in \<open>visited\<close>.\<close>

lemma enqueue_links_appends:
  "\<exists>new. snd (enqueue_links ctx url vis hrefs q) = q @ new \<and> (\<forall>u\<in>set new. u |\<notin>| vis)"
proof (induction hrefs arbitrary: q)
  case Nil
  then show ?case by simp
next
  case (Cons href hrefs)
  from enqueue_links_step[of ctx url vis href hrefs q]
  consider (err) e where "enqueue_links ctx url vis (href # hrefs) q = (Some e, q)"
    | (skip) "enqueue_links ctx url vis (href # hrefs) q = enqueue_links ctx url vis hrefs q"
    | (add) full_url where "full_url |\<notin>| vis"
        "enqueue_links ctx url vis (href # hrefs) q = enqueue_links ctx url vis hrefs (q @ [full_url])"
    by blast
  then show ?case
  proof cases
    case err
    then have "snd (enqueue_links ctx url vis (href # hrefs) q) = q @ []" by simp
    then show ?thesis by (metis empty_iff list.set(1))
  next
    case skip
    then show ?thesis using Cons.IH[of q] by simp
  next
    case add
    from Cons.IH[of "q @ [full_url]"] obtain new where
      n: "snd (enqueue_links ctx url vis hrefs (q @ [full_url])) = (q @ [full_url]) @ new"
         "\<forall>u\<in>set new. u |\<notin>| vis"
      by blast
    have "snd (enqueue_links ctx url vis (href # hrefs) q) = q @ (full_url # new)"
      using add(2) n(1) by simp
    moreover have "\<forall>u\<in>set (full_url # new). u |\<notin>| vis"
      using add(1) n(2) by simp
    ultimately show ?thesis by blast
  qed
qed

lemma crawl_step_visited: "visited st |\<subseteq>| visited (crawl_step ctx st)"
  by (auto simp: crawl_step_def Let_def split: list.splits sum.splits prod.splits)

lemma crawl_step_skip:
  "to_visit st = url # rest \<Longrightarrow> url |\<in>| visited st \<Longrightarrow> crawl_step ctx st = st\<lparr>to_visit := rest\<rparr>"
  by (simp add: crawl_step_def)

lemma crawl_step_error:
  "to_visit st = url # rest \<Longrightarrow> url |\<notin>| visited st \<Longrightarrow> scrape ctx url (world st) = (Inl e, w)
   \<Longrightarrow> crawl_step ctx st
        = st\<lparr>to_visit := rest, world := w, crawl_errors := crawl_errors st @ [(url, e)]\<rparr>"
  by (simp add: crawl_step_def)

text \<open>Every result stands for one URL of \<open>visited\<close>: a page enters the results once.\<close>

lemma crawl_step_results:
  assumes "length (results st) = fcard (visited st)"
  shows "length (results (crawl_step ctx st)) = fcard (visited (crawl_step ctx st))"
proof (cases "to_visit st")
  case Nil
  then show ?thesis using assms by (simp add: crawl_step_def)
next
  case (Cons url rest)
  show ?thesis
  proof (cases "url |\<in>| visited st")
    case True
    then show ?thesis using assms Cons by (simp add: crawl_step_def)
  next
    case False
    obtain r w where sc: "scrape ctx url (world st) = (r, w)"
      by (cases "scrape ctx url (world st)")
    show ?thesis
      using assms Cons False sc
      by (cases r) (simp_all add: crawl_step_def Let_def fcard_finsert_disjoint)
  qed
qed

lemma crawl_loop_inv:
  assumes "length (results st) = fcard (visited st)"
  shows "visited st |\<subseteq>| visited (crawl_loop ctx st)
       \<and> length (results (crawl_loop ctx st)) = fcard (visited (crawl_loop ctx st))"
  using assms
proof (induction ctx st rule: crawl_loop.induct)
  case (1 ctx st)
  show ?case
  proof (cases "crawl_guard ctx st")
    case True
    have "length (results (crawl_step ctx st)) = fcard (visited (crawl_step ctx st))"
      using crawl_step_results[OF "1.prems"] .
    from "1.IH"[OF True this] crawl_step_visited[of st ctx]
    show ?thesis by (auto simp: crawl_loop_unfold[OF True])
  next
    case False
    then show ?thesis using "1.prems" by (simp add: crawl_loop_stop)
  qed
qed

text \<open>
  C3, as the code has it. The enqueue-time check is against \<open>visited\<close> alone: every link the
  loop over the anchors appends is at that time not in \<open>visited\<close> (it may well be pending).
  A URL that is in \<open>visited\<close> when it is dequeued is dropped without a fetch. Over the whole
  loop \<open>visited\<close> only grows, and there are as many results as visited URLs, so that a URL
  gives at most one result.
\<close>

theorem C3_frontier_dedup:
  assumes "length (results st) = fcard (visited st)"
  shows "visited st |\<subseteq>| visited (crawl_loop ctx st)
       \<and> length (results (crawl_loop ctx st)) = fcard (visited (crawl_loop ctx st))
       \<and> (\<exists>new. snd (enqueue_links ctx url vis hrefs q) = q @ new \<and> (\<forall>u\<in>set new. u |\<notin>| vis))
       \<and> (\<forall>u rest. to_visit st = u # rest \<and> u |\<in>| visited st
             \<longrightarrow> crawl_step ctx st = st\<lparr>to_visit := rest\<rparr>)"
  using crawl_loop_inv[OF assms, of ctx] enqueue_links_appends[of ctx url vis hrefs q]
    crawl_step_skip[of st _ _ ctx]
  by blast

text \<open>
  The second site, crawled from S: after S and B the queue holds C twice; both fetches of C
  fail, are logged, and leave C out of \<open>visited\<close>.
\<close>

lemma dup_steps:
  "crawl_step dup_ctx dup_state0 = dup_state1"
  "crawl_step dup_ctx dup_state1 = dup_state"
  "crawl_step dup_ctx dup_state = dup_state3"
  "crawl_step dup_ctx dup_state3 = dup_state_end"
  by (simp_all add: crawl_step_def crawl_init_def dup_state0_def dup_ctx_def site_ctx_def dup_pages_def
      dup_state1_def dup_state_def dup_state3_def dup_state_end_def Let_def)

lemma dup_guards:
  "crawl_guard dup_ctx dup_state0"
  "crawl_guard dup_ctx dup_state1"
  "crawl_guard dup_ctx dup_state"
  "crawl_guard dup_ctx dup_state3"
  "\<not> crawl_guard dup_ctx dup_state_end"
  by (simp_all add: crawl_guard_def crawl_init_def dup_state0_def dup_ctx_def site_ctx_def
      dup_state1_def dup_state_def dup_state3_def dup_state_end_def fcard_finsert_if fcard_fempty)

lemma dup_crawl_loop: "crawl_loop dup_ctx dup_state0 = dup_state_end"
proof -
  have "crawl_loop dup_ctx dup_state0 = crawl_loop dup_ctx dup_state1"
    using crawl_loop_unfold[OF dup_guards(1)] by (simp only: dup_steps)
  also have "\<dots> = crawl_loop dup_ctx dup_state"
    using crawl_loop_unfold[OF dup_guards(2)] by (simp only: dup_steps)
  also have "\<dots> = crawl_loop dup_ctx dup_state3"
    using crawl_loop_unfold[OF dup_guards(3)] by (simp only: dup_steps)
  also have "\<dots> = crawl_loop dup_ctx dup_state_end"
    using crawl_loop_unfold[OF dup_guards(4)] by (simp only: dup_steps)
  also have "\<dots> = dup_state_end"
    using crawl_loop_stop[OF dup_guards(5)] .
  finally show ?thesis .
qed

theorem C3_frontier_dedup_witness:
  "length (results dup_state0)
     = fcard (visited dup_state0)
   \<and> visited dup_state0 |\<subseteq>| visited (crawl_loop dup_ctx dup_state0)
   \<and> length (results (crawl_loop dup_ctx dup_state0))
       = fcard (visited (crawl_loop dup_ctx dup_state0))
   \<and> length (results (crawl_loop dup_ctx dup_state0)) = 2"
proof -
  have h: "length (results dup_state0)
     = fcard (visited dup_state0)"
    by (simp add: crawl_init_def dup_state0_def fcard_fempty)
  have n: "length (results (crawl_loop dup_ctx dup_state0)) = 2"
    by (simp only: dup_crawl_loop) (simp add: dup_state_end_def)
  note t = C3_frontier_dedup[OF h, of dup_ctx]
  from t have a: "visited dup_state0 |\<subseteq>| visited (crawl_loop dup_ctx dup_state0)"
    by (rule conjunct1)
  from t have b: "length (results (crawl_loop dup_ctx dup_state0))
       = fcard (visited (crawl_loop dup_ctx dup_state0))"
    by (rule conjunct1[OF conjunct2])
  show ?thesis by (intro conjI h a b n)
qed

text \<open>
  C3 as stated (a URL is enqueued at most once, the check being against visited and pending
  URLs together) fails: C is pending when B is processed, and is appended a second time.
\<close>

theorem C3_enqueued_twice:
  "to_visit (crawl_step dup_ctx dup_state0) = [''B'', ''C'']
   \<and> to_visit (crawl_step dup_ctx (crawl_step dup_ctx dup_state0)) = [''C'', ''C'']"
  by (simp only: dup_steps) (simp add: dup_state1_def dup_state_def)

text \<open>
  C9, as the code has it. When \<open>scrape\<close> raises for the URL at the head of the queue, the
  iteration logs the error and the loop goes on with the rest of the queue: the crawl does
  not abort. \<open>visited\<close> and the results are unchanged, so the URL is not in \<open>visited\<close>
  afterwards.
\<close>

theorem C9_crawl_error_continues:
  assumes "crawl_guard ctx st" "to_visit st = url # rest" "url |\<notin>| visited st"
    and "scrape ctx url (world st) = (Inl e, w)"
  shows "crawl_step ctx st
           = st\<lparr>to_visit := rest, world := w, crawl_errors := crawl_errors st @ [(url, e)]\<rparr>
       \<and> crawl_loop ctx st
           = crawl_loop ctx (st\<lparr>to_visit := rest, world := w,
                                 crawl_errors := crawl_errors st @ [(url, e)]\<rparr>)
       \<and> visited (crawl_step ctx st) = visited st
       \<and> results (crawl_step ctx st) = results st
       \<and> url |\<notin>| visited (crawl_step ctx st)"
proof -
  have s: "crawl_step ctx st
           = st\<lparr>to_visit := rest, world := w, crawl_errors := crawl_errors st @ [(url, e)]\<rparr>"
    using crawl_step_error[OF assms(2,3,4)] .
  moreover have "crawl_loop ctx st = crawl_loop ctx (crawl_step ctx st)"
    using crawl_loop_unfold[OF assms(1)] .
  ultimately show ?thesis using assms(3) by simp
qed

theorem C9_crawl_error_continues_witness:
  "crawl_guard dup_ctx dup_state \<and> to_visit dup_state = ''C'' # [''C'']
   \<and> ''C'' |\<notin>| visited dup_state
   \<and> scrape dup_ctx ''C'' (world dup_state) = (Inl RequestException, [''S'', ''B'', ''C''])
   \<and> crawl_step dup_ctx dup_state
       = dup_state\<lparr>to_visit := [''C''], world := [''S'', ''B'', ''C''],
                   crawl_errors := crawl_errors dup_state @ [(''C'', RequestException)]\<rparr>
   \<and> visited (crawl_step dup_ctx dup_state) = visited dup_state
   \<and> ''C'' |\<notin>| visited (crawl_step dup_ctx dup_state)"
proof -
  have h: "to_visit dup_state = ''C'' # [''C'']" "''C'' |\<notin>| visited dup_state"
    "scrape dup_ctx ''C'' (world dup_state) = (Inl RequestException, [''S'', ''B'', ''C''])"
    by (simp_all add: dup_state_def dup_ctx_def site_ctx_def dup_pages_def)
  note t = C9_crawl_error_continues[OF dup_guards(3) h]
  from t have a: "crawl_step dup_ctx dup_state
       = dup_state\<lparr>to_visit := [''C''], world := [''S'', ''B'', ''C''],
                   crawl_errors := crawl_errors dup_state @ [(''C'', RequestException)]\<rparr>"
    by (rule conjunct1)
  from t have b: "visited (crawl_step dup_ctx dup_state) = visited dup_state"
    by (rule conjunct1[OF conjunct2[OF conjunct2]])
  from t have c: "''C'' |\<notin>| visited (crawl_step dup_ctx dup_state)"
    by (rule conjunct2[OF conjunct2[OF conjunct2[OF conjunct2]]])
  show ?thesis
    by (intro conjI dup_guards(3) h a b c)
qed

text \<open>
  C9 as stated (the failed URL is added to \<open>visited\<close> and is never fetched again) fails: in
  the crawl of the second site C is fetched twice and is not in \<open>visited\<close> at the end.
\<close>

theorem C9_failed_url_fetched_again:
  "world (crawl_loop dup_ctx dup_state0) = [''S'', ''B'', ''C'', ''C'']
   \<and> ''C'' |\<notin>| visited (crawl_loop dup_ctx dup_state0)
   \<and> crawl_errors (crawl_loop dup_ctx dup_state0)
       = [(''C'', RequestException), (''C'', RequestException)]"
  by (simp only: dup_crawl_loop) (simp add: dup_state_end_def)

section \<open>SmartScraper.crawl: breadth-first order\<close>

text \<open>
  C5. The queue is served from its head (\<open>crawl_step\<close>) and extended at its tail
  (\<open>enqueue_links_appends\<close>). In the scenario: on any site where the start page S links to B
  and C, B links to D, the page C can be fetched, and S, B, C, D are different URLs, the
  crawl from S with \<open>max_pages = 3\<close> returns the pages of S, B, C in this order, fetches
  S, B, C in this order, and never fetches D.
\<close>

theorem C5_bfs_order:
  assumes "pages S = Some [B, C]" "pages B = Some [D]" "pages C = Some cs" "distinct [S, B, C, D]"
  shows "crawl (site_ctx pages 3) S [] = (Inr [(S, [B, C]), (B, [D]), (C, cs)], [S, B, C])
       \<and> D \<notin> set (snd (crawl (site_ctx pages 3) S []))"
proof -
  define ctx where "ctx = site_ctx pages 3"
  define st0 :: "(string list, string \<times> string list) crawl_state" where "st0 = crawl_init S []"
  define st1 :: "(string list, string \<times> string list) crawl_state" where
    "st1 = \<lparr>to_visit = [B, C], visited = {|S|}, results = [(S, [B, C])], world = [S],
            crawl_errors = []\<rparr>"
  define st2 :: "(string list, string \<times> string list) crawl_state" where
    "st2 = \<lparr>to_visit = [C, D], visited = {|B, S|}, results = [(S, [B, C]), (B, [D])],
            world = [S, B], crawl_errors = []\<rparr>"
  define st3 where "st3 = crawl_step ctx st2"
  have d: "S \<noteq> B" "S \<noteq> C" "S \<noteq> D" "B \<noteq> C" "B \<noteq> D" "C \<noteq> D"
    using assms(4) by auto
  have b: "ctx\<lparr>base_domain := ''a.example''\<rparr> = ctx"
    by (simp add: ctx_def site_ctx_def)
  have s1: "crawl_step ctx st0 = st1"
    using assms(1) d by (simp add: crawl_step_def st0_def st1_def crawl_init_def ctx_def site_ctx_def Let_def)
  have s2: "crawl_step ctx st1 = st2"
    using assms(2) d by (simp add: crawl_step_def st1_def st2_def ctx_def site_ctx_def Let_def)
  have s3: "results st3 = [(S, [B, C]), (B, [D]), (C, cs)]" "world st3 = [S, B, C]"
    "visited st3 = {|C, B, S|}"
    using assms(3) d by (simp_all add: st3_def crawl_step_def st2_def ctx_def site_ctx_def Let_def)
  have g0: "crawl_guard ctx st0"
    by (simp add: crawl_guard_def st0_def crawl_init_def ctx_def site_ctx_def fcard_fempty)
  have g1: "crawl_guard ctx st1"
    by (simp add: crawl_guard_def st1_def ctx_def site_ctx_def fcard_finsert_if fcard_fempty)
  have g2: "crawl_guard ctx st2"
    using d by (simp add: crawl_guard_def st2_def ctx_def site_ctx_def fcard_finsert_if fcard_fempty)
  have g3: "\<not> crawl_guard ctx st3"
    using d by (simp add: crawl_guard_def s3 ctx_def site_ctx_def fcard_finsert_if fcard_fempty)
  have "crawl_loop ctx st0 = crawl_loop ctx st1"
    using crawl_loop_unfold[OF g0] by (simp only: s1)
  also have "\<dots> = crawl_loop ctx st2"
    using crawl_loop_unfold[OF g1] by (simp only: s2)
  also have "\<dots> = crawl_loop ctx st3"
    using crawl_loop_unfold[OF g2] by (simp only: st3_def)
  also have "\<dots> = st3"
    using crawl_loop_stop[OF g3] .
  finally have l: "crawl_loop ctx st0 = st3" .
  have n: "netloc ctx S = Inr ''a.example''"
    by (simp add: ctx_def site_ctx_def)
  have "crawl ctx S [] = (Inr (results st3), world st3)"
    unfolding crawl_def n sum.case b Let_def st0_def[symmetric] l ..
  then have c: "crawl (site_ctx pages 3) S [] = (Inr [(S, [B, C]), (B, [D]), (C, cs)], [S, B, C])"
    by (simp only: s3 ctx_def)
  moreover have "D \<notin> set [S, B, C]" using d by simp
  ultimately show ?thesis by simp
qed

theorem C5_bfs_order_witness:
  "bfs_pages ''S'' = Some [''B'', ''C''] \<and> bfs_pages ''B'' = Some [''D''] \<and> bfs_pages ''C'' = Some []
   \<and> distinct [''S'', ''B'', ''C'', ''D'']
   \<and> crawl bfs_ctx ''S'' [] = (Inr [(''S'', [''B'', ''C'']), (''B'', [''D'']), (''C'', [])], [''S'', ''B'', ''C''])
   \<and> ''D'' \<notin> set (snd (crawl bfs_ctx ''S'' []))"
proof -
  have h: "bfs_pages ''S'' = Some [''B'', ''C'']" "bfs_pages ''B'' = Some [''D'']"
    "bfs_pages ''C'' = Some []" "distinct [''S'', ''B'', ''C'', ''D'']"
    by (simp_all add: bfs_pages_def)
  note t = C5_bfs_order[OF h]
  from t have a: "crawl bfs_ctx ''S'' []
      = (Inr [(''S'', [''B'', ''C'']), (''B'', [''D'']), (''C'', [])], [''S'', ''B'', ''C''])"
    unfolding bfs_ctx_def by (rule conjunct1)
  from t have b: "''D'' \<notin> set (snd (crawl bfs_ctx ''S'' []))"
    unfolding bfs_ctx_def by (rule conjunct2)
  show ?thesis by (intro conjI h a b)
qed

end
